theory Spec2Isabelle
  imports Main "HOL-Library.Word"
begin

unbundle bit_operations_syntax

section \<open>Data model\<close>

text \<open>
  \<^verbatim>\<open>typedef unsigned int coord_t;\<close> A coordinate is a 32-bit unsigned machine word; a
  coordinate vector \<^verbatim>\<open>coord_t *X\<close> is the list of the words stored behind the pointer.
  The parameters \<^verbatim>\<open>b\<close> and \<^verbatim>\<open>n\<close> are C++ \<^verbatim>\<open>int\<close>s.

  The four functions return \<open>None\<close> exactly where the C++ execution has no defined
  behaviour: a shift by a negative amount or by 32 or more, an access outside the
  storage of the vector, or an overflow of \<^verbatim>\<open>int\<close> arithmetic. The test is made once,
  at the head of each function, and the text before the function says which statement
  gives which condition. Shifts of \<^verbatim>\<open>int\<close> values by less than 32 are taken modulo
  \<open>2 ^ 32\<close> (the C++20 rule), so that \<^verbatim>\<open>1 << 31\<close> and \<^verbatim>\<open>2 << 31\<close>, converted to
  \<^verbatim>\<open>coord_t\<close>, are \<open>2 ^ 31\<close> and \<open>0\<close>.
\<close>

type_synonym coord_t = "32 word"

section \<open>The body shared by both transforms\<close>

text \<open>
  The body of the inner loops at bit-plane \<open>Q\<close> and dimension \<open>i\<close>:
  \<^verbatim>\<open>
    if (X[i] & Q) { X[0] ^= P; }
    else { t = (X[0] ^ X[i]) & P; X[0] ^= t; X[i] ^= t; }
  \<close>
  with \<^verbatim>\<open>P = Q - 1\<close> set by the enclosing loop.
\<close>

definition invert_or_exchange :: "coord_t \<Rightarrow> nat \<Rightarrow> coord_t list \<Rightarrow> coord_t list" where
  "invert_or_exchange Q i X =
     (let P = Q - 1 in
      if X ! i AND Q \<noteq> 0 then X[0 := X ! 0 XOR P]
      else (let t = (X ! 0 XOR X ! i) AND P;
                X1 = X[0 := X ! 0 XOR t]
            in X1[i := X1 ! i XOR t]))"

text \<open>\<^verbatim>\<open>X[i] ^= X[i - 1];\<close>\<close>

definition xor_prev :: "nat \<Rightarrow> coord_t list \<Rightarrow> coord_t list" where
  "xor_prev i X = X[i := X ! i XOR X ! (i - 1)]"

section \<open>AxestoTranspose\<close>

text \<open>
  \<^verbatim>\<open>for (Q = M; Q > 1; Q >>= 1) { P = Q - 1; for (int i = 0; i < n; i++) { ... } }\<close>
\<close>

function inverse_undo :: "coord_t \<Rightarrow> nat \<Rightarrow> coord_t list \<Rightarrow> coord_t list" where
  "inverse_undo Q n X =
     (if 1 < Q then inverse_undo (drop_bit 1 Q) n (fold (invert_or_exchange Q) [0..<n] X)
      else X)"
  by pat_completeness auto
termination
proof (relation "measure (\<lambda>(Q, n, X). unat Q)")
  show "wf (measure (\<lambda>(Q :: coord_t, n :: nat, X :: coord_t list). unat Q))"
    by simp
next
  fix Q :: coord_t and n :: nat and X :: "coord_t list"
  assume "1 < Q"
  then have "1 < unat Q"
    by (simp add: word_less_nat_alt)
  then have "unat (drop_bit 1 Q) < unat Q"
    by (simp add: drop_bit_Suc unat_div)
  then show "((drop_bit 1 Q, n, fold (invert_or_exchange Q) [0..<n] X), (Q, n, X))
               \<in> measure (\<lambda>(Q, n, X). unat Q)"
    by simp
qed

text \<open>
  \<^verbatim>\<open>t = 0; for (Q = M; Q > 1; Q >>= 1) { if (X[n - 1] & Q) { t ^= Q - 1; } }\<close>
  The loop reads \<^verbatim>\<open>X[n - 1]\<close>, which it does not change; \<open>w\<close> is that word.
\<close>

function correction :: "coord_t \<Rightarrow> coord_t \<Rightarrow> coord_t \<Rightarrow> coord_t" where
  "correction Q w t =
     (if 1 < Q then correction (drop_bit 1 Q) w (if w AND Q \<noteq> 0 then t XOR (Q - 1) else t)
      else t)"
  by pat_completeness auto
termination
proof (relation "measure (\<lambda>(Q, w, t). unat Q)")
  show "wf (measure (\<lambda>(Q :: coord_t, w :: coord_t, t :: coord_t). unat Q))"
    by simp
next
  fix Q w t :: coord_t
  assume "1 < Q"
  then have "1 < unat Q"
    by (simp add: word_less_nat_alt)
  then have "unat (drop_bit 1 Q) < unat Q"
    by (simp add: drop_bit_Suc unat_div)
  then show "((drop_bit 1 Q, w, if w AND Q \<noteq> 0 then t XOR (Q - 1) else t), (Q, w, t))
               \<in> measure (\<lambda>(Q, w, t). unat Q)"
    by simp
qed

text \<open>
  \<^verbatim>\<open>void AxestoTranspose(coord_t *X, int b, int n)\<close>.
  \<^verbatim>\<open>M = 1 << (b - 1)\<close> is defined for \<open>1 \<le> b \<le> 32\<close>. The loops touch \<^verbatim>\<open>X[0..n-1]\<close>,
  and the correction loop reads \<^verbatim>\<open>X[n - 1]\<close> as soon as \<open>M > 1\<close>, that is \<open>b \<ge> 2\<close>.
\<close>

definition AxestoTranspose :: "coord_t list \<Rightarrow> int \<Rightarrow> int \<Rightarrow> coord_t list option" where
  "AxestoTranspose X b n =
     (if 1 \<le> b \<and> b \<le> 32 \<and> n \<le> int (length X) \<and> (1 \<le> n \<or> b = 1) then
        (let M = push_bit (nat (b - 1)) 1;
             X1 = inverse_undo M (nat n) X;
             X2 = fold xor_prev [1..<nat n] X1;
             t = correction M (X2 ! (nat n - 1)) 0
         in Some (fold (\<lambda>i X. X[i := X ! i XOR t]) [0..<nat n] X2))
      else None)"

section \<open>TransposetoAxes\<close>

text \<open>
  \<^verbatim>\<open>for (Q = 2; Q != N; Q <<= 1) { P = Q - 1; for (int i = n - 1; i >= 0; i--) { ... } }\<close>
  The loop ends only when \<open>Q\<close> meets \<open>N\<close>; a run that never does has the value \<open>None\<close>.
\<close>

partial_function (option) undo_excess ::
    "coord_t \<Rightarrow> coord_t \<Rightarrow> nat \<Rightarrow> coord_t list \<Rightarrow> coord_t list option" where
  "undo_excess Q N n X =
     (if Q \<noteq> N then undo_excess (push_bit 1 Q) N n (fold (invert_or_exchange Q) (rev [0..<n]) X)
      else Some X)"

declare undo_excess.simps [code]

text \<open>
  \<^verbatim>\<open>void TransposetoAxes(coord_t *X, int b, int n)\<close>.
  \<^verbatim>\<open>N = 2 << (b - 1)\<close> is defined for \<open>1 \<le> b \<le> 32\<close>; \<^verbatim>\<open>X[n - 1]\<close> is read first, so
  \<open>1 \<le> n\<close> and the vector holds at least \<open>n\<close> words.
\<close>

definition TransposetoAxes :: "coord_t list \<Rightarrow> int \<Rightarrow> int \<Rightarrow> coord_t list option" where
  "TransposetoAxes X b n =
     (if 1 \<le> b \<and> b \<le> 32 \<and> 1 \<le> n \<and> n \<le> int (length X) then
        (let N = push_bit (nat (b - 1)) 2;
             t = drop_bit 1 (X ! (nat n - 1));
             X1 = fold xor_prev (rev [1..<nat n]) X;
             X2 = X1[0 := X1 ! 0 XOR t]
         in undo_excess 2 N (nat n) X2)
      else None)"

section \<open>interleaveBits\<close>

text \<open>
  The memory \<^verbatim>\<open>interleaveBits\<close> works on: the caller's vector \<^verbatim>\<open>X\<close> and the scratch
  array \<^verbatim>\<open>coden\<close> of \<open>n\<close> words that \<^verbatim>\<open>malloc\<close> returns (taken to succeed, and to be
  disjoint from \<^verbatim>\<open>X\<close>).
\<close>

record interleave_mem =
  vec :: "coord_t list"
  coden :: "32 word list"

text \<open>\<^verbatim>\<open>coden[j] |= (unsigned int)(X[j] & andbit) << i;\<close>\<close>

definition spread_bit :: "nat \<Rightarrow> 32 word \<Rightarrow> nat \<Rightarrow> interleave_mem \<Rightarrow> interleave_mem" where
  "spread_bit i andbit j m =
     m\<lparr>coden := (coden m)[j := coden m ! j OR push_bit i (vec m ! j AND andbit)]\<rparr>"

text \<open>
  \<^verbatim>\<open>for (int i = 0, andbit = 1; i < nbits2; i += 2, andbit <<= 1)
      for (int j = 0; j < n; ++j) ...\<close>
\<close>

function spread_loop :: "int \<Rightarrow> 32 word \<Rightarrow> int \<Rightarrow> nat \<Rightarrow> interleave_mem \<Rightarrow> interleave_mem" where
  "spread_loop i andbit nbits2 n m =
     (if i < nbits2
      then spread_loop (i + 2) (push_bit 1 andbit) nbits2 n
             (fold (spread_bit (nat i) andbit) [0..<n] m)
      else m)"
  by pat_completeness auto
termination
  by (relation "measure (\<lambda>(i, andbit, nbits2, n, m). nat (nbits2 - i))") auto

text \<open>
  \<^verbatim>\<open>int res = (coden[0] << (n - 1));
  for (int j = 1; j < n; ++j) res |= (coden[j] << (n - j - 1));\<close>
  The \<^verbatim>\<open>int\<close> result is kept as its 32-bit pattern (the caller stores it in an
  \<^verbatim>\<open>unsigned int\<close>).
\<close>

definition combine :: "nat \<Rightarrow> 32 word list \<Rightarrow> 32 word" where
  "combine n c =
     fold (\<lambda>j res. res OR push_bit (n - j - 1) (c ! j)) [1..<n] (push_bit (n - 1) (c ! 0))"

text \<open>
  \<^verbatim>\<open>int interleaveBits(coord_t *X, int b, int n)\<close>, returning the memory after the call
  and the result. The words of \<^verbatim>\<open>coden\<close> are indeterminate after \<^verbatim>\<open>malloc\<close>; the first
  loop sets each of them to 0 before it is read.
  Defined behaviour needs: \<^verbatim>\<open>coden[0]\<close> to exist and \<^verbatim>\<open>coden[0] << (n - 1)\<close> to shift by
  less than 32 (\<open>1 \<le> n \<le> 32\<close>); \<^verbatim>\<open>2 * b\<close> not to overflow and the shift \<^verbatim>\<open><< i\<close>,
  with \<open>i\<close> up to \<open>2 * (b - 1)\<close>, to be by less than 32 (\<open>b \<le> 16\<close>); and
  \<^verbatim>\<open>X[0..n-1]\<close> to exist when the second loop runs (\<open>b \<ge> 1\<close>).
\<close>

definition interleaveBits_mem :: "coord_t list \<Rightarrow> int \<Rightarrow> int \<Rightarrow> (coord_t list \<times> 32 word) option" where
  "interleaveBits_mem X b n =
     (if 1 \<le> n \<and> n \<le> 32 \<and> - (2 ^ 30) \<le> b \<and> b \<le> 16 \<and> (b \<le> 0 \<or> n \<le> int (length X)) then
        (let m0 = \<lparr>vec = X, coden = replicate (nat n) 0\<rparr>;
             m1 = fold (\<lambda>i m. m\<lparr>coden := (coden m)[i := 0]\<rparr>) [0..<nat n] m0;
             nbits2 = 2 * b;
             m2 = spread_loop 0 1 nbits2 (nat n) m1;
             res = combine (nat n) (coden m2)
         in Some (vec m2, res))
      else None)"

definition interleaveBits :: "coord_t list \<Rightarrow> int \<Rightarrow> int \<Rightarrow> 32 word option" where
  "interleaveBits X b n = map_option snd (interleaveBits_mem X b n)"

section \<open>uninterleaveBits\<close>

text \<open>
  \<^verbatim>\<open>unsigned int selector = 1; unsigned int shift_selector = 3 * i;
  unsigned int shiftback = 2 * i;
  X[n - j - 1] |= (code & (selector << (shift_selector + j))) >> (shiftback + j);\<close>
\<close>

definition select_bit :: "32 word \<Rightarrow> nat \<Rightarrow> nat \<Rightarrow> nat \<Rightarrow> coord_t list \<Rightarrow> coord_t list" where
  "select_bit code n i j X =
     (let selector = 1;
          shift_selector = 3 * i;
          shiftback = 2 * i
      in X[n - j - 1 :=
             X ! (n - j - 1) OR drop_bit (shiftback + j) (code AND push_bit (shift_selector + j) selector)])"

text \<open>
  \<^verbatim>\<open>void uninterleaveBits(coord_t *X, int b, int n, unsigned int code)\<close>.
  The outer loop runs for \<open>i = 0, \<dots>, b\<close> (\<^verbatim>\<open>i <= b\<close>). Defined behaviour needs
  \<^verbatim>\<open>X[0..n-1]\<close> to exist and, when both loops run (\<open>0 \<le> b\<close>, \<open>1 \<le> n\<close>), the largest
  shift \<open>3 * b + n - 1\<close> to be less than 32; with \<open>n \<le> 0\<close> only the counter \<open>i\<close> runs,
  up to \<open>b + 1\<close>, which must be an \<^verbatim>\<open>int\<close>.
\<close>

definition uninterleaveBits :: "coord_t list \<Rightarrow> int \<Rightarrow> int \<Rightarrow> 32 word \<Rightarrow> coord_t list option" where
  "uninterleaveBits X b n code =
     (if n \<le> int (length X) \<and>
         (b < 0 \<or> (1 \<le> n \<and> 3 * b + n - 1 < 32) \<or> (n \<le> 0 \<and> b < 2 ^ 31 - 1)) then
        (let X0 = fold (\<lambda>i X. X[i := 0]) [0..<nat n] X
         in Some (fold (\<lambda>i X. fold (select_bit code (nat n) i) [0..<nat n] X) [0..<nat (b + 1)] X0))
      else None)"

section \<open>The demonstration driver\<close>

text \<open>
  \<^verbatim>\<open>main\<close> prints the 15 bits of the Hilbert integer from the transposed vector, level
  by level: \<^verbatim>\<open>X[0] >> 4 & 1, X[1] >> 4 & 1, X[2] >> 4 & 1, X[0] >> 3 & 1, ...\<close>
\<close>

definition hilbert_digits :: "coord_t list \<Rightarrow> coord_t list" where
  "hilbert_digits X =
     [drop_bit 4 (X ! 0) AND 1, drop_bit 4 (X ! 1) AND 1, drop_bit 4 (X ! 2) AND 1,
      drop_bit 3 (X ! 0) AND 1, drop_bit 3 (X ! 1) AND 1, drop_bit 3 (X ! 2) AND 1,
      drop_bit 2 (X ! 0) AND 1, drop_bit 2 (X ! 1) AND 1, drop_bit 2 (X ! 2) AND 1,
      drop_bit 1 (X ! 0) AND 1, drop_bit 1 (X ! 1) AND 1, drop_bit 1 (X ! 2) AND 1,
      drop_bit 0 (X ! 0) AND 1, drop_bit 0 (X ! 1) AND 1, drop_bit 0 (X ! 2) AND 1]"

text \<open>
  The first half of \<^verbatim>\<open>main\<close>: \<^verbatim>\<open>X = {5, 10, 20}; AxestoTranspose(X, 5, 3);
  code = interleaveBits(X, 5, 3);\<close> and the digits printed. The result is the code and
  the digits.
\<close>

definition main_example :: "(32 word \<times> coord_t list) option" where
  "main_example =
     (case AxestoTranspose [5, 10, 20] 5 3 of
        None \<Rightarrow> None
      | Some X \<Rightarrow> (case interleaveBits X 5 3 of
                     None \<Rightarrow> None
                   | Some code \<Rightarrow> Some (code, hilbert_digits X)))"

text \<open>A word written as \<open>k\<close> binary digits, most significant first.\<close>

definition binary_digits :: "nat \<Rightarrow> 32 word \<Rightarrow> coord_t list" where
  "binary_digits k w = map (\<lambda>i. drop_bit i w AND 1) (rev [0..<k])"

section \<open>Notions used in the statements\<close>

text \<open>All entries of the vector are in \<open>[0, 2 ^ b - 1]\<close>.\<close>

definition fits :: "nat \<Rightarrow> coord_t list \<Rightarrow> bool" where
  "fits b X \<longleftrightarrow> (\<forall>x \<in> set X. unat x < 2 ^ b)"

text \<open>
  The two transforms applied one after the other to the same storage, as \<^verbatim>\<open>main\<close> does
  with \<^verbatim>\<open>AxestoTranspose(X, 5, 3); ... TransposetoAxes(X, 5, 3);\<close>
\<close>

definition axes_roundtrip :: "coord_t list \<Rightarrow> int \<Rightarrow> int \<Rightarrow> coord_t list option" where
  "axes_roundtrip X b n =
     (case AxestoTranspose X b n of None \<Rightarrow> None | Some Y \<Rightarrow> TransposetoAxes Y b n)"

definition transpose_roundtrip :: "coord_t list \<Rightarrow> int \<Rightarrow> int \<Rightarrow> coord_t list option" where
  "transpose_roundtrip X b n =
     (case TransposetoAxes X b n of None \<Rightarrow> None | Some Y \<Rightarrow> AxestoTranspose Y b n)"

text \<open>
  The value the correction loop of \<^verbatim>\<open>AxestoTranspose\<close> adds to \<open>t\<close> over the planes
  \<open>1, \<dots>, m\<close> of the word \<open>w\<close>: the mask \<open>2 ^ k - 1\<close> for every set bit \<open>k\<close>.
\<close>

primrec corr :: "coord_t \<Rightarrow> nat \<Rightarrow> coord_t" where
  "corr w 0 = 0"
| "corr w (Suc m) = corr w m XOR (if bit w (Suc m) then mask (Suc m) else 0)"

section \<open>Loops that stop at once\<close>

declare inverse_undo.simps [simp del] correction.simps [simp del] spread_loop.simps [simp del]

lemma inverse_undo_stop: "\<not> 1 < Q \<Longrightarrow> inverse_undo Q n X = X"
  by (subst inverse_undo.simps) simp

lemma correction_stop: "\<not> 1 < Q \<Longrightarrow> correction Q w t = t"
  by (subst correction.simps) simp

lemma undo_excess_stop: "undo_excess N N n X = Some X"
  by (subst undo_excess.simps) simp

lemma fold_skip: "fold (\<lambda>i X. X) is X = X"
  by (induction "is") simp_all

section \<open>The known example\<close>

lemma example_transpose: "AxestoTranspose [5, 10, 20] 5 3 = Some [10, 14, 27]"
  by code_simp

lemma example_code: "interleaveBits [10, 14, 27] 5 3 = Some 7865"
  by code_simp

text \<open>
  C4, as the code has it: for \<open>b = 5\<close>, \<open>n = 3\<close> and the axes \<open>(5, 10, 20)\<close>, the
  interleaved code of the transpose is 7865, and its 15 bits, in groups of three
  (\<open>X0, X1, X2\<close> per level, most significant level first), read
  \<open>001 111 010 111 001\<close>, both as \<^verbatim>\<open>main\<close> prints them from the transpose and as the
  binary digits of 7865.
\<close>

theorem known_example_7865:
  "main_example = Some (7865, [0,0,1, 1,1,1, 0,1,0, 1,1,1, 0,0,1]) \<and>
   binary_digits 15 7865 = [0,0,1, 1,1,1, 0,1,0, 1,1,1, 0,0,1]"
proof -
  have "binary_digits 15 7865 = [0,0,1, 1,1,1, 0,1,0, 1,1,1, 0,0,1]"
    by code_simp
  then show ?thesis
    by (simp add: main_example_def example_transpose example_code hilbert_digits_def)
qed

text \<open>
  C4, as the claim states it, fails: the digits are not \<open>111 110 100 001 101\<close>
  (which is the number 32013, not 7865).
\<close>

theorem known_example_digits_counterexample:
  "main_example \<noteq> Some (7865, [1,1,1, 1,1,0, 1,0,0, 0,0,1, 1,0,1]) \<and>
   binary_digits 15 7865 \<noteq> [1,1,1, 1,1,0, 1,0,0, 0,0,1, 1,0,1]"
proof -
  have "binary_digits 15 7865 = [0,0,1, 1,1,1, 0,1,0, 1,1,1, 0,0,1]"
    by code_simp
  then show ?thesis
    by (simp add: main_example_def example_transpose example_code hilbert_digits_def)
qed

section \<open>Interleaving outside three dimensions\<close>

text \<open>
  C2 at \<open>n = 4\<close>, \<open>b = 2\<close>, \<open>v = (1, 0, 0, 0)\<close>: bit 0 of \<open>X[0]\<close> is stored at position 3
  of the code, where \<^verbatim>\<open>uninterleaveBits\<close> also looks for bit 1 of \<open>X[3]\<close>; the round
  trip returns \<open>(1, 0, 0, 2)\<close>.
\<close>

theorem roundtrip_interleave_n4:
  "interleaveBits [1, 0, 0, 0] 2 4 = Some 8 \<and>
   uninterleaveBits [1, 0, 0, 0] 2 4 8 = Some [1, 0, 0, 2]"
  by code_simp

text \<open>
  C3 at \<open>n = 2\<close>, \<open>b = 2\<close>, \<open>X = (2, 0)\<close>: the code is 16. Position \<open>k = 3\<close> belongs to
  bit \<open>3 div 2 = 1\<close> of coordinate \<open>(2 - 1) - 3 mod 2 = 0\<close>, which is set, but bit 3 of
  the code is clear.
\<close>

theorem interleave_layout_n2:
  "interleaveBits [2, 0] 2 2 = Some 16 \<and>
   \<not> bit (16 :: 32 word) 3 \<and>
   bit ([2, 0 :: coord_t] ! ((2 - 1) - 3 mod 2)) (3 div 2)"
  by code_simp

text \<open>
  C5 at \<open>n = 1\<close>, \<open>b = 2\<close>: the coordinate 2 is interleaved to 8, and the code 2 is
  uninterleaved to 0.
\<close>

theorem interleave_n1:
  "interleaveBits [2] 2 1 = Some 8 \<and> uninterleaveBits [2] 2 1 2 = Some [0]"
  by code_simp

section \<open>One bit per coordinate\<close>

lemma AxestoTranspose_b1:
  assumes "1 \<le> n" and "int (length X) = n"
  shows "AxestoTranspose X 1 n = Some (fold xor_prev [1..<nat n] X)"
  using assms by (simp add: AxestoTranspose_def inverse_undo_stop correction_stop fold_skip)

lemma TransposetoAxes_b1:
  assumes "1 \<le> n" and "int (length X) = n"
  shows "TransposetoAxes X 1 n =
           Some (let t = drop_bit 1 (X ! (nat n - 1));
                     X1 = fold xor_prev (rev [1..<nat n]) X
                 in X1[0 := X1 ! 0 XOR t])"
  using assms by (simp add: TransposetoAxes_def undo_excess_stop Let_def)

text \<open>
  C7: for \<open>b = 1\<close> and every \<open>n \<ge> 1\<close> the three bit-plane loops stop before their first
  iteration (the exchange/invert loops of both transforms, and the correction loop, which
  leaves \<open>t = 0\<close>). \<^verbatim>\<open>AxestoTranspose\<close> is the ascending chain \<^verbatim>\<open>X[i] ^= X[i - 1]\<close>,
  \<open>i = 1, \<dots>, n - 1\<close>; \<^verbatim>\<open>TransposetoAxes\<close> is \<^verbatim>\<open>t = X[n - 1] >> 1\<close>, the descending
  chain, and \<^verbatim>\<open>X[0] ^= t\<close>. This holds for every vector of length \<open>n\<close>, so for those
  with entries in \<open>[0, 1]\<close>.
\<close>

theorem b1_gray_only:
  assumes "1 \<le> n" and "int (length X) = n"
  shows "inverse_undo (push_bit (nat (1 - 1)) 1) (nat n) X = X \<and>
         correction (push_bit (nat (1 - 1)) 1) w 0 = 0 \<and>
         undo_excess 2 (push_bit (nat (1 - 1)) 2) (nat n) X = Some X \<and>
         AxestoTranspose X 1 n = Some (fold xor_prev [1..<nat n] X) \<and>
         TransposetoAxes X 1 n =
           Some (let t = drop_bit 1 (X ! (nat n - 1));
                     X1 = fold xor_prev (rev [1..<nat n]) X
                 in X1[0 := X1 ! 0 XOR t])"
  using AxestoTranspose_b1 [OF assms] TransposetoAxes_b1 [OF assms]
  by (simp add: inverse_undo_stop correction_stop undo_excess_stop)

theorem b1_gray_only_witness:
  "(1::int) \<le> 3 \<and> int (length [1, 0, 1 :: coord_t]) = 3 \<and>
   AxestoTranspose [1, 0, 1] 1 3 = Some [1, 1, 0] \<and>
   TransposetoAxes [1, 0, 1] 1 3 = Some [1, 1, 1]"
  using b1_gray_only [of 3 "[1, 0, 1]"]
  by (simp add: xor_prev_def upt_rec)

section \<open>uninterleaveBits overwrites its vector\<close>

lemma zero_loop_prefix:
  "k \<le> length X \<Longrightarrow>
     fold (\<lambda>i X. X[i := 0]) [0..<k] X = replicate k (0::coord_t) @ drop k X"
proof (induction k)
  case 0
  then show ?case by simp
next
  case (Suc k)
  then have "k < length X" by simp
  then have "(replicate k (0::coord_t) @ drop k X)[k := 0] = replicate (Suc k) 0 @ drop (Suc k) X"
    by (simp add: list_update_append upd_conv_take_nth_drop replicate_append_same)
  with Suc show ?case by simp
qed

lemma zero_loop:
  "length X = k \<Longrightarrow> fold (\<lambda>i X. X[i := 0]) [0..<k] X = replicate k (0::coord_t)"
  by (simp add: zero_loop_prefix)

text \<open>
  C10: for \<open>b \<ge> 1\<close>, \<open>n \<ge> 1\<close>, every code and any two vectors of length \<open>n\<close>,
  \<^verbatim>\<open>uninterleaveBits\<close> with the same \<open>(b, n, code)\<close> has the same outcome on both; and it
  does return a vector wherever its shifts are defined (\<open>3 * b + n \<le> 32\<close>).
\<close>

theorem uninterleaveBits_ignores_prior:
  assumes "1 \<le> b" and "1 \<le> n" and "int (length X1) = n" and "int (length X2) = n"
  shows "uninterleaveBits X1 b n code = uninterleaveBits X2 b n code \<and>
         (3 * b + n \<le> 32 \<longrightarrow> uninterleaveBits X1 b n code \<noteq> None)"
proof -
  have "length X1 = nat n" "length X2 = nat n"
    using assms by auto
  then have "fold (\<lambda>i X. X[i := 0]) [0..<nat n] X1 = fold (\<lambda>i X. X[i := 0]) [0..<nat n] X2"
    by (simp add: zero_loop)
  then show ?thesis
    using assms by (simp add: uninterleaveBits_def Let_def)
qed

theorem uninterleaveBits_ignores_prior_witness:
  "(1::int) \<le> 5 \<and> (1::int) \<le> 3 \<and> int (length [1, 2, 3 :: coord_t]) = 3 \<and>
   int (length [7, 7, 7 :: coord_t]) = 3 \<and>
   uninterleaveBits [1, 2, 3] 5 3 7865 = uninterleaveBits [7, 7, 7] 5 3 7865 \<and>
   uninterleaveBits [1, 2, 3] 5 3 7865 = Some [10, 14, 27]"
proof -
  have "uninterleaveBits [1, 2, 3] 5 3 7865 = Some [10, 14, 27]"
    by code_simp
  then show ?thesis
    using uninterleaveBits_ignores_prior [of 5 3 "[1, 2, 3]" "[7, 7, 7]" 7865] by simp
qed

section \<open>interleaveBits leaves its vector alone\<close>

lemma vec_spread_bit: "vec (spread_bit i a j m) = vec m"
  by (simp add: spread_bit_def)

lemma vec_fold_spread_bit: "vec (fold (spread_bit i a) js m) = vec m"
  by (induction js arbitrary: m) (simp_all add: vec_spread_bit)

lemma vec_spread_loop: "vec (spread_loop i a nb n m) = vec m"
proof (induction i a nb n m rule: spread_loop.induct)
  case (1 i andbit nbits2 n m)
  show ?case
  proof (cases "i < nbits2")
    case True
    with 1 show ?thesis
      by (subst spread_loop.simps) (simp add: vec_fold_spread_bit)
  next
    case False
    then show ?thesis
      by (subst spread_loop.simps) simp
  qed
qed

lemma vec_fold_clear: "vec (fold (\<lambda>i m. m\<lparr>coden := (coden m)[i := 0]\<rparr>) is m) = vec m"
  by (induction "is" arbitrary: m) simp_all

text \<open>
  C9: for \<open>n \<ge> 1\<close>, \<open>b \<ge> 1\<close> and every vector \<open>X\<close> of length \<open>n\<close>, whenever
  \<^verbatim>\<open>interleaveBits\<close> returns, the vector holds what it held before; and it does return
  wherever its shifts are defined (\<open>b \<le> 16\<close>, \<open>n \<le> 32\<close>).
\<close>

theorem interleaveBits_frame:
  assumes "1 \<le> n" and "1 \<le> b" and "int (length X) = n"
  shows "(\<forall>X' r. interleaveBits_mem X b n = Some (X', r) \<longrightarrow> X' = X) \<and>
         (b \<le> 16 \<and> n \<le> 32 \<longrightarrow> (\<exists>r. interleaveBits_mem X b n = Some (X, r)))"
  using assms
  by (auto simp: interleaveBits_mem_def Let_def vec_spread_loop vec_fold_clear split: if_splits)

theorem interleaveBits_frame_witness:
  "(1::int) \<le> 3 \<and> (1::int) \<le> 5 \<and> int (length [10, 14, 27 :: coord_t]) = 3 \<and>
   interleaveBits_mem [10, 14, 27] 5 3 = Some ([10, 14, 27], 7865)"
proof -
  have "interleaveBits_mem [10, 14, 27] 5 3 = Some ([10, 14, 27], 7865)"
    by code_simp
  then show ?thesis
    using interleaveBits_frame [of 3 5 "[10, 14, 27]"] by simp
qed

section \<open>The bit-plane loops run over the exponents\<close>

lemma uint_pow32: "q < 32 \<Longrightarrow> uint (2 ^ q :: 32 word) = 2 ^ q"
  by (rule uint_2p) (simp add: word_neq_0_conv [symmetric])

lemma one_less_pow: "1 \<le> q \<Longrightarrow> q < 32 \<Longrightarrow> (1 :: 32 word) < 2 ^ q"
proof -
  assume "1 \<le> q" "q < 32"
  then have "(2::int) ^ 1 \<le> 2 ^ q"
    by (intro power_increasing) simp_all
  with \<open>q < 32\<close> show ?thesis
    by (simp add: word_less_def uint_pow32)
qed

lemma drop_bit_1_pow: "Suc q < 32 \<Longrightarrow> drop_bit 1 (2 ^ Suc q :: 32 word) = 2 ^ q"
  by (simp add: drop_bit_exp_eq del: power_Suc)

lemma pow_neq: "q < b \<Longrightarrow> b \<le> 32 \<Longrightarrow> (2 ^ q :: 32 word) \<noteq> 2 ^ b"
proof (cases "b = 32")
  case True
  assume "q < b"
  with True have "(2 ^ b :: 32 word) = 0" "(2 ^ q :: 32 word) \<noteq> 0"
    by simp_all
  then show ?thesis by metis
next
  case False
  assume "q < b" "b \<le> 32"
  with False have "q < 32" "b < 32" by simp_all
  then have "uint (2 ^ q :: 32 word) = 2 ^ q" "uint (2 ^ b :: 32 word) = 2 ^ b"
    by (simp_all add: uint_pow32)
  moreover have "(2::int) ^ q \<noteq> 2 ^ b"
    using \<open>q < b\<close> by simp
  ultimately show ?thesis
    by metis
qed

lemma inverse_undo_pow:
  "q < 32 \<Longrightarrow>
     inverse_undo (2 ^ q) n X =
       fold (\<lambda>k. fold (invert_or_exchange (2 ^ k)) [0..<n]) (rev [1..<Suc q]) X"
proof (induction q arbitrary: X)
  case 0
  then show ?case by (simp add: inverse_undo_stop)
next
  case (Suc q)
  then have "(1 :: 32 word) < 2 ^ Suc q"
    by (intro one_less_pow) simp_all
  then have "inverse_undo (2 ^ Suc q) n X =
               inverse_undo (2 ^ q) n (fold (invert_or_exchange (2 ^ Suc q)) [0..<n] X)"
    using Suc.prems by (subst inverse_undo.simps) (simp only: drop_bit_1_pow if_True)
  with Suc show ?case by simp
qed

lemma undo_excess_pow:
  "q \<le> b \<Longrightarrow> b \<le> 32 \<Longrightarrow>
     undo_excess (2 ^ q) (2 ^ b) n X =
       Some (fold (\<lambda>k. fold (invert_or_exchange (2 ^ k)) (rev [0..<n])) [q..<b] X)"
proof (induction "b - q" arbitrary: q X)
  case 0
  then show ?case by (simp add: undo_excess_stop)
next
  case (Suc d)
  then have "q < b" "Suc q \<le> b" "d = b - Suc q" by simp_all
  have ne: "(2 ^ q :: 32 word) \<noteq> 2 ^ b"
    using \<open>q < b\<close> Suc.prems by (intro pow_neq)
  have "undo_excess (2 ^ q) (2 ^ b) n X =
          undo_excess (2 ^ Suc q) (2 ^ b) n (fold (invert_or_exchange (2 ^ q)) (rev [0..<n]) X)"
    using ne by (subst undo_excess.simps) (simp add: push_bit_eq_mult mult.commute)
  also have "\<dots> = Some (fold (\<lambda>k. fold (invert_or_exchange (2 ^ k)) (rev [0..<n])) [Suc q..<b]
                          (fold (invert_or_exchange (2 ^ q)) (rev [0..<n]) X))"
    using Suc.hyps(1) [OF \<open>d = b - Suc q\<close> \<open>Suc q \<le> b\<close> Suc.prems(2)] .
  finally show ?case
    using \<open>q < b\<close> by (simp add: upt_conv_Cons)
qed

section \<open>The invert-or-exchange step undoes itself\<close>

lemma invert_or_exchange_pow:
  "invert_or_exchange (2 ^ k) i X =
     (if bit (X ! i) k then X[0 := X ! 0 XOR mask k]
      else (let t = (X ! 0 XOR X ! i) AND mask k;
                X1 = X[0 := X ! 0 XOR t]
            in X1[i := X1 ! i XOR t]))"
  by (simp add: invert_or_exchange_def and_exp_eq_0_iff_not_bit mask_eq_exp_minus_1)

lemma length_invert_or_exchange [simp]: "length (invert_or_exchange Q i X) = length X"
  by (simp add: invert_or_exchange_def Let_def)

lemma bit_xor_mask_same: "bit (x XOR mask k :: coord_t) k \<longleftrightarrow> bit x k"
  by (simp add: bit_simps)

lemma bit_xor_and_mask_same: "bit (x XOR (y AND mask k) :: coord_t) k \<longleftrightarrow> bit x k"
  by (simp add: bit_simps)

lemma xor_and_mask_twice: "((x XOR t) XOR (y XOR t)) AND mask k = (x XOR y) AND (mask k :: coord_t)"
  by (auto simp: bit_eq_iff bit_simps)

lemma xor_twice: "(x XOR y) XOR y = (x :: coord_t)"
  by (simp add: xor.assoc)

lemma invert_or_exchange_twice:
  assumes "i < length X"
  shows "invert_or_exchange (2 ^ k) i (invert_or_exchange (2 ^ k) i X) = X"
proof (cases "i = 0")
  case True
  with assms show ?thesis
    by (simp add: invert_or_exchange_pow bit_xor_mask_same Let_def xor_twice)
next
  case False
  with assms have len: "0 < length X" "i < length X" "i \<noteq> 0" "0 \<noteq> i"
    by auto
  show ?thesis
  proof (cases "bit (X ! i) k")
    case True
    with len show ?thesis
      by (simp add: invert_or_exchange_pow xor_twice)
  next
    case False
    define t where "t = (X ! 0 XOR X ! i) AND mask k"
    define Y where "Y = (X[0 := X ! 0 XOR t])[i := X ! i XOR t]"
    have Y: "invert_or_exchange (2 ^ k) i X = Y"
      using False len by (simp add: invert_or_exchange_pow Let_def t_def Y_def)
    have Yi: "Y ! i = X ! i XOR t" and Y0: "Y ! 0 = X ! 0 XOR t"
      using len by (simp_all add: Y_def)
    have nb: "\<not> bit (Y ! i) k"
      using False by (simp add: Yi t_def bit_xor_and_mask_same)
    have t': "(Y ! 0 XOR Y ! i) AND mask k = t"
      unfolding Yi Y0 xor_and_mask_twice by (simp add: t_def)
    have lenY: "0 < length Y" "i < length Y"
      using len by (simp_all add: Y_def)
    have "invert_or_exchange (2 ^ k) i Y = (Y[0 := Y ! 0 XOR t])[i := Y ! i XOR t]"
      using nb lenY len(3,4) by (simp add: invert_or_exchange_pow Let_def t')
    also have "\<dots> = (Y[0 := X ! 0])[i := X ! i]"
      by (simp add: Yi Y0 xor_twice)
    also have "\<dots> = X"
      using len by (simp add: Y_def list_update_swap [of 0 i])
    finally show ?thesis
      by (simp add: Y)
  qed
qed

lemma fold_invariant:
  assumes "\<And>x s. x \<in> set xs \<Longrightarrow> I s \<Longrightarrow> I (f x s)" and "I s"
  shows "I (fold f xs s)"
  using assms by (induction xs arbitrary: s) simp_all

lemma fold_undoes_fold_rev:
  assumes inv: "\<And>x s. x \<in> set xs \<Longrightarrow> I s \<Longrightarrow> g x (f x s) = s"
    and pres: "\<And>x s. x \<in> set xs \<Longrightarrow> I s \<Longrightarrow> I (f x s)"
    and "I s"
  shows "fold g xs (fold f (rev xs) s) = s"
  using assms
proof (induction xs arbitrary: s)
  case Nil
  then show ?case by simp
next
  case (Cons x xs)
  have "I (fold f (rev xs) s)"
    using Cons.prems(2,3) by (intro fold_invariant [where I = I]) simp_all
  then have "g x (f x (fold f (rev xs) s)) = fold f (rev xs) s"
    using Cons.prems(1) by simp
  moreover have "fold g xs (fold f (rev xs) s) = s"
    using Cons.prems by (intro Cons.IH) simp_all
  ultimately show ?case
    by simp
qed

lemma length_fold_invert_or_exchange [simp]:
  "length (fold (invert_or_exchange Q) is X) = length X"
  by (induction "is" arbitrary: X) simp_all

lemma length_fold_planes [simp]:
  "length (fold (\<lambda>k. fold (invert_or_exchange (2 ^ k)) (js k)) ks X) = length X"
  by (induction ks arbitrary: X) simp_all

lemma plane_undone:
  assumes "length X = n"
  shows "fold (invert_or_exchange (2 ^ k)) (rev [0..<n])
           (fold (invert_or_exchange (2 ^ k)) [0..<n] X) = X"
proof -
  have "fold (invert_or_exchange (2 ^ k)) (rev [0..<n])
          (fold (invert_or_exchange (2 ^ k)) (rev (rev [0..<n])) X) = X"
    using assms
    by (intro fold_undoes_fold_rev [where I = "\<lambda>s. length s = n"])
       (simp_all add: invert_or_exchange_twice)
  then show ?thesis by simp
qed

lemma planes_undone:
  assumes "length X = n"
  shows "fold (\<lambda>k. fold (invert_or_exchange (2 ^ k)) (rev [0..<n])) ks
           (fold (\<lambda>k. fold (invert_or_exchange (2 ^ k)) [0..<n]) (rev ks) X) = X"
  using assms
  by (intro fold_undoes_fold_rev [where I = "\<lambda>s. length s = n"])
     (simp_all add: plane_undone)

section \<open>The Gray chains\<close>

lemma length_xor_prev [simp]: "length (xor_prev i X) = length X"
  by (simp add: xor_prev_def)

lemma length_fold_xor_prev [simp]: "length (fold xor_prev is X) = length X"
  by (induction "is" arbitrary: X) simp_all

lemma xor_prev_twice: "1 \<le> i \<Longrightarrow> i < length X \<Longrightarrow> xor_prev i (xor_prev i X) = X"
  by (simp add: xor_prev_def xor_twice)

lemma chain_undone:
  assumes "length X = n"
  shows "fold xor_prev (rev [1..<n]) (fold xor_prev [1..<n] X) = X"
proof -
  have "fold xor_prev (rev [1..<n]) (fold xor_prev (rev (rev [1..<n])) X) = X"
    using assms
    by (intro fold_undoes_fold_rev [where I = "\<lambda>s. length s = n"])
       (simp_all add: xor_prev_twice)
  then show ?thesis by simp
qed

lemma descending_chain_nth:
  "n \<le> length A \<Longrightarrow> i < length A \<Longrightarrow>
     fold xor_prev (rev [1..<n]) A ! i =
       (if 1 \<le> i \<and> i < n then A ! i XOR A ! (i - 1) else A ! i)"
proof (induction n arbitrary: A)
  case 0
  then show ?case by simp
next
  case (Suc n)
  show ?case
  proof (cases "n = 0")
    case True
    then show ?thesis by auto
  next
    case False
    define B where "B = xor_prev n A"
    have B_nth: "B ! j = (if j = n then A ! n XOR A ! (n - 1) else A ! j)" if "j < length A" for j
      using that by (simp add: B_def xor_prev_def nth_list_update)
    have step: "fold xor_prev (rev [1..<Suc n]) A = fold xor_prev (rev [1..<n]) B"
      using False by (simp add: B_def)
    have IH: "fold xor_prev (rev [1..<n]) B ! i =
        (if 1 \<le> i \<and> i < n then B ! i XOR B ! (i - 1) else B ! i)"
      using Suc.prems by (intro Suc.IH) (simp_all add: B_def)
    have "i - 1 < length A"
      using Suc.prems by simp
    then show ?thesis
      unfolding step IH using B_nth [of i] B_nth [of "i - 1"] Suc.prems False by auto
  qed
qed

lemma length_xor_all [simp]: "length (fold (\<lambda>i X. X[i := X ! i XOR t]) is A) = length A"
  by (induction "is" arbitrary: A) simp_all

lemma xor_all_nth:
  "i < length A \<Longrightarrow>
     fold (\<lambda>i X. X[i := X ! i XOR t]) [0..<k] A ! i = (if i < k then A ! i XOR t else A ! i)"
  by (induction k) (auto simp: nth_list_update less_Suc_eq)

lemma xor_all_loop:
  "length A = n \<Longrightarrow> fold (\<lambda>i X. X[i := X ! i XOR t]) [0..<n] A = map (\<lambda>x. x XOR t) A"
  by (rule nth_equalityI) (simp_all add: xor_all_nth)

section \<open>The correction term\<close>

lemma correction_corr: "q < 32 \<Longrightarrow> correction (2 ^ q) w t = t XOR corr w q"
proof (induction q arbitrary: t)
  case 0
  then show ?case by (simp add: correction_stop)
next
  case (Suc q)
  then have "(1 :: 32 word) < 2 ^ Suc q"
    by (intro one_less_pow) simp_all
  then have "correction (2 ^ Suc q) w t =
               correction (2 ^ q) w (if w AND 2 ^ Suc q \<noteq> 0 then t XOR (2 ^ Suc q - 1) else t)"
    using Suc.prems by (subst correction.simps) (simp only: drop_bit_1_pow if_True)
  also have "\<dots> = (if w AND 2 ^ Suc q \<noteq> 0 then t XOR (2 ^ Suc q - 1) else t) XOR corr w q"
    using Suc.prems by (intro Suc.IH) simp
  also have "\<dots> = t XOR corr w (Suc q)"
    by (simp add: and_exp_eq_0_iff_not_bit mask_eq_exp_minus_1 ac_simps del: power_Suc)
  finally show ?case .
qed

lemma take_bit_Suc_xor:
  "take_bit (Suc m) (w :: coord_t) = take_bit m w XOR (if bit w m then 2 ^ m else 0)"
  by (rule bit_word_eqI) (auto simp: bit_simps less_Suc_eq)

lemma exp_xor_mask: "(2 ^ m :: coord_t) XOR mask m = mask (Suc m)"
  by (rule bit_word_eqI) (auto simp: bit_simps less_Suc_eq)

lemma drop_bit_1_mask: "Suc m < 32 \<Longrightarrow> drop_bit 1 (mask (Suc m) :: coord_t) = mask m"
  by (rule bit_word_eqI) (auto simp: bit_simps)

lemma corr_shift: "corr w m = drop_bit 1 (take_bit (Suc m) w XOR corr w m)"
proof (induction m)
  case 0
  show ?case
    by (rule bit_word_eqI) (auto simp: bit_simps)
next
  case (Suc m)
  show ?case
  proof (cases "bit w (Suc m)")
    case False
    then have "take_bit (Suc (Suc m)) w = take_bit (Suc m) w"
      by (simp add: take_bit_Suc_xor [of "Suc m"])
    with False Suc show ?thesis
      by simp
  next
    case True
    then have "Suc m < 32"
      using bit_imp_le_length [of w "Suc m"] by simp
    then have d: "drop_bit 1 (2 ^ Suc m :: coord_t) = 2 ^ m"
      by (rule drop_bit_1_pow)
    have "drop_bit 1 (take_bit (Suc (Suc m)) w XOR corr w (Suc m)) =
            drop_bit 1 (take_bit (Suc m) w XOR corr w m) XOR
              (drop_bit 1 (2 ^ Suc m) XOR drop_bit 1 (mask (Suc m)))"
      using True by (simp add: take_bit_Suc_xor [of "Suc m"] ac_simps del: power_Suc)
    also have "\<dots> = corr w m XOR (2 ^ m XOR mask m)"
      using Suc \<open>Suc m < 32\<close> by (simp only: d drop_bit_1_mask)
    also have "\<dots> = corr w (Suc m)"
      using True by (simp add: exp_xor_mask)
    finally show ?thesis ..
  qed
qed

lemma corr_decodes:
  assumes "1 \<le> b" and "take_bit b w = w"
  shows "drop_bit 1 (w XOR corr w (b - 1)) = corr w (b - 1)"
  using corr_shift [of w "b - 1"] assms by simp

section \<open>Entries stay below \<open>2 ^ b\<close>\<close>

lemma unat_less_iff_take_bit: "unat (x :: coord_t) < 2 ^ b \<longleftrightarrow> take_bit b x = x"
proof -
  have "take_bit b x = x \<longleftrightarrow> unat (take_bit b x) = unat x"
    by (simp add: word_unat_eq_iff)
  also have "\<dots> \<longleftrightarrow> take_bit b (unat x) = unat x"
    by (simp add: unsigned_take_bit_eq)
  also have "\<dots> \<longleftrightarrow> unat x < 2 ^ b"
    by (simp add: take_bit_nat_eq_self_iff)
  finally show ?thesis ..
qed

lemma fits_nth: "fits b X \<longleftrightarrow> (\<forall>j<length X. take_bit b (X ! j) = X ! j)"
  by (simp add: fits_def unat_less_iff_take_bit all_set_conv_all_nth)

lemma fits_update:
  "fits b X \<Longrightarrow> take_bit b v = v \<Longrightarrow> fits b (X[i := v])"
  by (cases "i < length X") (auto simp: fits_nth nth_list_update)

lemma fits_invert_or_exchange:
  assumes "fits b X" and "k < b" and "i < length X"
  shows "fits b (invert_or_exchange (2 ^ k) i X)"
proof -
  define t where "t = (X ! 0 XOR X ! i) AND mask k"
  have "0 < length X"
    using assms(3) by auto
  then have x0: "take_bit b (X ! 0) = X ! 0" and xi: "take_bit b (X ! i) = X ! i"
    using assms by (simp_all add: fits_nth)
  have m: "take_bit b (mask k :: coord_t) = mask k"
    using assms(2) by simp
  have t: "take_bit b t = t"
    by (simp only: t_def take_bit_and take_bit_xor x0 xi m)
  have inv: "take_bit b (X ! 0 XOR mask k) = X ! 0 XOR mask k"
    using x0 m by (simp only: take_bit_xor)
  have x0t: "take_bit b (X ! 0 XOR t) = X ! 0 XOR t"
    using x0 t by (simp only: take_bit_xor)
  have xit: "take_bit b (X ! i XOR t) = X ! i XOR t"
    using xi t by (simp only: take_bit_xor)
  have x0tt: "take_bit b ((X ! 0 XOR t) XOR t) = (X ! 0 XOR t) XOR t"
    using x0t t by (simp only: take_bit_xor)
  show ?thesis
  proof (cases "bit (X ! i) k")
    case True
    then show ?thesis
      using assms(1) inv by (simp add: invert_or_exchange_pow fits_update)
  next
    case False
    have "fits b (X[0 := X ! 0 XOR t])"
      using assms(1) x0t by (rule fits_update)
    moreover have "take_bit b (X[0 := X ! 0 XOR t] ! i XOR t) = X[0 := X ! 0 XOR t] ! i XOR t"
      using \<open>0 < length X\<close> xit x0tt by (cases "i = 0") simp_all
    ultimately have "fits b ((X[0 := X ! 0 XOR t])[i := X[0 := X ! 0 XOR t] ! i XOR t])"
      by (rule fits_update)
    then show ?thesis
      using False by (simp add: invert_or_exchange_pow Let_def t_def)
  qed
qed

lemma fits_plane:
  assumes "fits b X" and "k < b" and "\<forall>i \<in> set is. i < length X"
  shows "fits b (fold (invert_or_exchange (2 ^ k)) is X)"
proof -
  have "length (fold (invert_or_exchange (2 ^ k)) is X) = length X \<and>
        fits b (fold (invert_or_exchange (2 ^ k)) is X)"
  proof (rule fold_invariant [where I = "\<lambda>s. length s = length X \<and> fits b s"])
    show "length X = length X \<and> fits b X"
      using assms(1) by simp
  next
    fix i s
    assume "i \<in> set is" and "length s = length X \<and> fits b s"
    then show "length (invert_or_exchange (2 ^ k) i s) = length X \<and>
               fits b (invert_or_exchange (2 ^ k) i s)"
      using assms(2,3) by (simp add: fits_invert_or_exchange)
  qed
  then show ?thesis ..
qed

lemma fits_planes:
  assumes "fits b X" and "\<forall>k \<in> set ks. k < b" and "\<And>k. \<forall>i \<in> set (js k). i < length X"
  shows "fits b (fold (\<lambda>k. fold (invert_or_exchange (2 ^ k)) (js k)) ks X)"
proof -
  have "length (fold (\<lambda>k. fold (invert_or_exchange (2 ^ k)) (js k)) ks X) = length X \<and>
        fits b (fold (\<lambda>k. fold (invert_or_exchange (2 ^ k)) (js k)) ks X)"
  proof (rule fold_invariant [where I = "\<lambda>s. length s = length X \<and> fits b s"])
    show "length X = length X \<and> fits b X"
      using assms(1) by simp
  next
    fix k s
    assume "k \<in> set ks" and "length s = length X \<and> fits b s"
    then show "length (fold (invert_or_exchange (2 ^ k)) (js k) s) = length X \<and>
               fits b (fold (invert_or_exchange (2 ^ k)) (js k) s)"
      using assms(2,3) by (simp add: fits_plane)
  qed
  then show ?thesis ..
qed

lemma fits_xor_prev:
  assumes "fits b X" and "i < length X"
  shows "fits b (xor_prev i X)"
proof -
  have "i - 1 < length X"
    using assms(2) by simp
  then show ?thesis
    using assms by (auto simp: xor_prev_def fits_nth nth_list_update)
qed

lemma fits_chain:
  assumes "fits b X" and "\<forall>i \<in> set is. i < length X"
  shows "fits b (fold xor_prev is X)"
proof -
  have "length (fold xor_prev is X) = length X \<and> fits b (fold xor_prev is X)"
    using assms
    by (intro fold_invariant [where I = "\<lambda>s. length s = length X \<and> fits b s"])
       (simp_all add: fits_xor_prev)
  then show ?thesis ..
qed

lemma take_bit_corr: "m < b \<Longrightarrow> take_bit b (corr w m) = corr w m"
  by (induction m) simp_all

lemma fits_map_xor: "fits b A \<Longrightarrow> take_bit b t = t \<Longrightarrow> fits b (map (\<lambda>x. x XOR t) A)"
  by (simp add: fits_nth)

lemma take_bit_drop_bit_1:
  assumes "take_bit b (x :: coord_t) = x"
  shows "take_bit b (drop_bit 1 x) = drop_bit 1 x"
proof (rule bit_word_eqI)
  fix j
  assume "j < LENGTH(32)"
  have "bit x (Suc j) \<Longrightarrow> Suc j < b"
    using assms by (metis bit_take_bit_iff)
  then show "bit (take_bit b (drop_bit 1 x)) j \<longleftrightarrow> bit (drop_bit 1 x) j"
    by (auto simp: bit_simps)
qed

section \<open>Both transforms in closed form, and their round trips\<close>

lemma AxestoTranspose_closed:
  assumes "1 \<le> n" and "1 \<le> b" and "b \<le> 32" and "int (length X) = n"
  shows "AxestoTranspose X b n =
           Some (let Z = fold (\<lambda>k. fold (invert_or_exchange (2 ^ k)) [0..<nat n]) (rev [1..<nat b]) X;
                     A = fold xor_prev [1..<nat n] Z;
                     t = corr (A ! (nat n - 1)) (nat b - 1)
                 in map (\<lambda>x. x XOR t) A)"
proof -
  have q: "nat (b - 1) < 32" "Suc (nat (b - 1)) = nat b" "nat (b - 1) = nat b - 1"
    using assms by simp_all
  have len: "length X = nat n"
    using assms by simp
  show ?thesis
    using assms
    by (simp add: AxestoTranspose_def Let_def inverse_undo_pow correction_corr q xor_all_loop len)
qed

lemma TransposetoAxes_closed:
  assumes "1 \<le> n" and "1 \<le> b" and "b \<le> 32" and "int (length X) = n"
  shows "TransposetoAxes X b n =
           Some (let t = drop_bit 1 (X ! (nat n - 1));
                     X1 = fold xor_prev (rev [1..<nat n]) X;
                     X2 = X1[0 := X1 ! 0 XOR t]
                 in fold (\<lambda>k. fold (invert_or_exchange (2 ^ k)) (rev [0..<nat n])) [1..<nat b] X2)"
proof -
  have N: "push_bit (nat (b - 1)) (2 :: coord_t) = 2 ^ nat b"
  proof -
    have "push_bit (nat (b - 1)) (2 :: coord_t) = 2 ^ Suc (nat (b - 1))"
      by (simp add: push_bit_eq_mult)
    also have "Suc (nat (b - 1)) = nat b"
      using assms by simp
    finally show ?thesis .
  qed
  have "undo_excess (2 ^ 1) (2 ^ nat b) m Y =
          Some (fold (\<lambda>k. fold (invert_or_exchange (2 ^ k)) (rev [0..<m])) [1..<nat b] Y)" for m Y
    using assms by (intro undo_excess_pow) simp_all
  then have U: "undo_excess 2 (2 ^ nat b) m Y =
          Some (fold (\<lambda>k. fold (invert_or_exchange (2 ^ k)) (rev [0..<m])) [1..<nat b] Y)" for m Y
    by simp
  show ?thesis
    using assms by (simp add: TransposetoAxes_def Let_def N U)
qed

lemma roundtrip_closed:
  assumes "1 \<le> n" and "1 \<le> b" and "length X = n" and "fits b X"
  defines "Z \<equiv> fold (\<lambda>k. fold (invert_or_exchange (2 ^ k)) [0..<n]) (rev [1..<b]) X"
  defines "A \<equiv> fold xor_prev [1..<n] Z"
  defines "t \<equiv> corr (A ! (n - 1)) (b - 1)"
  defines "Y \<equiv> map (\<lambda>x. x XOR t) A"
  defines "X1 \<equiv> fold xor_prev (rev [1..<n]) Y"
  shows "length Y = n" and "fits b Y"
    and "fold (\<lambda>k. fold (invert_or_exchange (2 ^ k)) (rev [0..<n])) [1..<b]
           (X1[0 := X1 ! 0 XOR drop_bit 1 (Y ! (n - 1))]) = X"
proof -
  have lenZ: "length Z = n" and lenA: "length A = n" and lenY: "length Y = n"
    and lenX1: "length X1 = n"
    using assms(3) by (simp_all add: Z_def A_def Y_def X1_def)
  show "length Y = n" by fact
  have fitsZ: "fits b Z"
    unfolding Z_def using assms(3,4) by (intro fits_planes) simp_all
  have fitsA: "fits b A"
    unfolding A_def using fitsZ lenZ by (intro fits_chain) simp_all
  have w: "take_bit b (A ! (n - 1)) = A ! (n - 1)"
    using fitsA lenA assms(1) by (simp add: fits_nth)
  have t: "take_bit b t = t"
    unfolding t_def using assms(2) by (intro take_bit_corr) simp
  show fitsY: "fits b Y"
    unfolding Y_def using fitsA t by (rule fits_map_xor)
  have Y_nth: "Y ! i = A ! i XOR t" if "i < n" for i
    using that lenA by (simp add: Y_def)
  have "drop_bit 1 (Y ! (n - 1)) = drop_bit 1 (A ! (n - 1) XOR t)"
    using assms(1) by (simp add: Y_nth)
  also have "\<dots> = t"
    unfolding t_def using assms(2) w by (rule corr_decodes)
  finally have t2: "drop_bit 1 (Y ! (n - 1)) = t" .
  have desc: "fold xor_prev (rev [1..<n]) A = Z"
    unfolding A_def using lenZ by (rule chain_undone)
  have "X1[0 := X1 ! 0 XOR t] = Z"
  proof (rule nth_equalityI)
    show "length (X1[0 := X1 ! 0 XOR t]) = length Z"
      by (simp add: lenX1 lenZ)
  next
    fix i
    assume "i < length (X1[0 := X1 ! 0 XOR t])"
    then have i: "i < n"
      by (simp add: lenX1)
    then have "i - 1 < n" by simp
    have X1i: "X1 ! i = (if 1 \<le> i \<and> i < n then Y ! i XOR Y ! (i - 1) else Y ! i)"
      unfolding X1_def using i lenY by (intro descending_chain_nth) simp_all
    have Zi: "Z ! i = (if 1 \<le> i \<and> i < n then A ! i XOR A ! (i - 1) else A ! i)"
      unfolding desc [symmetric] using i lenA by (intro descending_chain_nth) simp_all
    have c: "(x XOR t) XOR (y XOR t) = x XOR y" for x y :: coord_t
      by (simp add: ac_simps)
    show "X1[0 := X1 ! 0 XOR t] ! i = Z ! i"
    proof (cases "i = 0")
      case True
      then show ?thesis
        using i lenX1 X1i Zi Y_nth [of 0] by (simp add: xor_twice)
    next
      case False
      then show ?thesis
        using i lenX1 X1i Zi Y_nth [of i] Y_nth [OF \<open>i - 1 < n\<close>] by (simp add: c)
    qed
  qed
  then show "fold (\<lambda>k. fold (invert_or_exchange (2 ^ k)) (rev [0..<n])) [1..<b]
           (X1[0 := X1 ! 0 XOR drop_bit 1 (Y ! (n - 1))]) = X"
    unfolding t2 Z_def using assms(3) by (simp add: planes_undone)
qed

lemma roundtrip:
  assumes "1 \<le> n" and "1 \<le> b" and "b \<le> 32" and "int (length X) = n" and "fits (nat b) X"
  shows "\<exists>Y. AxestoTranspose X b n = Some Y \<and> length Y = nat n \<and> fits (nat b) Y \<and>
             TransposetoAxes Y b n = Some X"
proof -
  define Z where "Z = fold (\<lambda>k. fold (invert_or_exchange (2 ^ k)) [0..<nat n]) (rev [1..<nat b]) X"
  define A where "A = fold xor_prev [1..<nat n] Z"
  define t where "t = corr (A ! (nat n - 1)) (nat b - 1)"
  define Y where "Y = map (\<lambda>x. x XOR t) A"
  have n: "1 \<le> nat n" "1 \<le> nat b" "length X = nat n"
    using assms by simp_all
  note rc = roundtrip_closed [OF n assms(5), folded Z_def, folded A_def, folded t_def, folded Y_def]
  have ax: "AxestoTranspose X b n = Some Y"
    using assms by (simp add: AxestoTranspose_closed Let_def Z_def A_def t_def Y_def)
  have "int (length Y) = n"
    using rc(1) assms(1) by simp
  then have "TransposetoAxes Y b n = Some X"
    using assms(1-3) rc(3) by (simp add: TransposetoAxes_closed Let_def)
  with ax rc(1,2) show ?thesis
    by simp
qed

lemma TransposetoAxes_fits:
  assumes "1 \<le> n" and "1 \<le> b" and "b \<le> 32" and "int (length X) = n" and "fits (nat b) X"
  shows "\<exists>Y. TransposetoAxes X b n = Some Y \<and> length Y = nat n \<and> fits (nat b) Y"
proof -
  define t where "t = drop_bit 1 (X ! (nat n - 1))"
  define X1 where "X1 = fold xor_prev (rev [1..<nat n]) X"
  define X2 where "X2 = X1[0 := X1 ! 0 XOR t]"
  have len: "length X = nat n" "0 < nat n"
    using assms by simp_all
  have lenX1: "length X1 = nat n" and lenX2: "length X2 = nat n"
    using len by (simp_all add: X1_def X2_def)
  have "take_bit (nat b) (X ! (nat n - 1)) = X ! (nat n - 1)"
    using assms(5) len by (simp add: fits_nth)
  then have t: "take_bit (nat b) t = t"
    unfolding t_def by (rule take_bit_drop_bit_1)
  have fitsX1: "fits (nat b) X1"
    unfolding X1_def using assms(5) len by (intro fits_chain) simp_all
  then have "take_bit (nat b) (X1 ! 0) = X1 ! 0"
    using lenX1 len by (simp add: fits_nth)
  then have "take_bit (nat b) (X1 ! 0 XOR t) = X1 ! 0 XOR t"
    using t by (simp only: take_bit_xor)
  with fitsX1 have fitsX2: "fits (nat b) X2"
    unfolding X2_def by (rule fits_update)
  have "fits (nat b) (fold (\<lambda>k. fold (invert_or_exchange (2 ^ k)) (rev [0..<nat n])) [1..<nat b] X2)"
    using fitsX2 lenX2 by (intro fits_planes) simp_all
  then show ?thesis
    using assms(1-4) lenX2
    by (simp add: TransposetoAxes_closed Let_def t_def X1_def X2_def)
qed

lemma roundtrip_converse:
  assumes "1 \<le> n" and "1 \<le> b" and "b \<le> 32" and "int (length X) = n" and "fits (nat b) X"
  shows "\<exists>Y. TransposetoAxes X b n = Some Y \<and> length Y = nat n \<and> fits (nat b) Y \<and>
             AxestoTranspose Y b n = Some X"
proof -
  define S where "S = {V :: coord_t list. length V = nat n \<and> fits (nat b) V}"
  define a where "a V = the (AxestoTranspose V b n)" for V
  have rt: "AxestoTranspose V b n = Some (a V) \<and> a V \<in> S \<and> TransposetoAxes (a V) b n = Some V"
    if "V \<in> S" for V
  proof -
    have "int (length V) = n" "fits (nat b) V"
      using that assms(1) by (simp_all add: S_def)
    from roundtrip [OF assms(1-3) this] show ?thesis
      by (auto simp: a_def S_def)
  qed
  have "S \<subseteq> {V. set V \<subseteq> UNIV \<and> length V = nat n}"
    by (auto simp: S_def)
  moreover have "finite {V :: coord_t list. set V \<subseteq> UNIV \<and> length V = nat n}"
    by (rule finite_lists_length_eq) (rule finite)
  ultimately have "finite S"
    by (rule finite_subset)
  moreover have "a ` S \<subseteq> S"
    using rt by auto
  moreover have "inj_on a S"
  proof (rule inj_onI)
    fix V W
    assume V: "V \<in> S" and W: "W \<in> S" and eq: "a V = a W"
    have "TransposetoAxes (a V) b n = Some V"
      using rt [OF V] by simp
    moreover have "TransposetoAxes (a W) b n = Some W"
      using rt [OF W] by simp
    ultimately have "Some V = Some W"
      unfolding eq by (rule trans [OF sym])
    then show "V = W" by simp
  qed
  ultimately have "a ` S = S"
    by (rule endo_inj_surj)
  moreover have "X \<in> S"
    using assms by (simp add: S_def)
  ultimately obtain U where U: "U \<in> S" "X = a U"
    by auto
  then show ?thesis
    using rt [of U] by (simp add: S_def)
qed

section \<open>One dimension\<close>

lemma plane_single:
  "invert_or_exchange (2 ^ k) 0 [x] = [if bit x k then x XOR mask k else x]"
  by (simp add: invert_or_exchange_pow Let_def)

lemma planes_single:
  "fold (\<lambda>k. invert_or_exchange (2 ^ k) 0) ks [x] =
     [fold (\<lambda>k x. if bit x k then x XOR mask k else x) ks x]"
  by (induction ks arbitrary: x) (simp_all only: fold_simps plane_single)

lemma flips_keep_high_bits:
  "\<forall>k \<in> set ks. k \<le> j \<Longrightarrow>
     bit (fold (\<lambda>k x. if bit x k then x XOR mask k else x) ks (x :: coord_t)) j \<longleftrightarrow> bit x j"
  by (induction ks arbitrary: x) (simp_all add: bit_simps)

lemma flips_corr:
  "fold (\<lambda>k x. if bit x k then x XOR mask k else x) (rev [1..<Suc m]) x XOR
     corr (fold (\<lambda>k x. if bit x k then x XOR mask k else x) (rev [1..<Suc m]) x) m = x"
proof (induction m arbitrary: x)
  case 0
  show ?case by simp
next
  case (Suc m)
  define x' where "x' = (if bit x (Suc m) then x XOR mask (Suc m) else x)"
  define y where "y = fold (\<lambda>k x. if bit x k then x XOR mask k else x) (rev [1..<Suc m]) x'"
  have y: "fold (\<lambda>k x. if bit x k then x XOR mask k else x) (rev [1..<Suc (Suc m)]) x = y"
    by (simp add: y_def x'_def)
  have IH: "y XOR corr y m = x'"
    unfolding y_def by (rule Suc.IH)
  have "bit y (Suc m) \<longleftrightarrow> bit x' (Suc m)"
    unfolding y_def by (rule flips_keep_high_bits) auto
  also have "\<dots> \<longleftrightarrow> bit x (Suc m)"
    by (simp add: x'_def bit_xor_mask_same)
  finally have b: "bit y (Suc m) \<longleftrightarrow> bit x (Suc m)" .
  have "y XOR corr y (Suc m) = (y XOR corr y m) XOR (if bit x (Suc m) then mask (Suc m) else 0)"
    by (simp add: b xor.assoc)
  also have "\<dots> = x"
    by (simp add: IH x'_def xor_twice)
  finally show ?case
    unfolding y .
qed

lemma AxestoTranspose_single:
  assumes "1 \<le> b" and "b \<le> 32"
  shows "AxestoTranspose [x] b 1 = Some [x]"
proof -
  have "Suc (nat b - 1) = nat b"
    using assms by simp
  then have "fold (\<lambda>k x. if bit x k then x XOR mask k else x) (rev [1..<nat b]) x XOR
     corr (fold (\<lambda>k x. if bit x k then x XOR mask k else x) (rev [1..<nat b]) x) (nat b - 1) = x"
    using flips_corr [of "nat b - 1" x] by simp
  then show ?thesis
    using assms by (simp add: AxestoTranspose_closed Let_def planes_single)
qed

lemma TransposetoAxes_single:
  assumes "1 \<le> b" and "b \<le> 32" and "fits (nat b) [x]"
  shows "TransposetoAxes [x] b 1 = Some [x]"
  using roundtrip [of 1 b "[x]"] assms by (simp add: AxestoTranspose_single)

section \<open>The transforms are mutually inverse\<close>

text \<open>
  C1, as the code has it: for \<open>n \<ge> 1\<close>, \<open>1 \<le> b \<le> 32\<close> (the width of \<^verbatim>\<open>coord_t\<close>) and
  every vector \<open>v\<close> of length \<open>n\<close> with all entries in \<open>[0, 2 ^ b - 1]\<close>,
  \<^verbatim>\<open>AxestoTranspose\<close> followed by \<^verbatim>\<open>TransposetoAxes\<close>, with the same \<open>b\<close> and \<open>n\<close>,
  returns \<open>v\<close>; so does \<^verbatim>\<open>TransposetoAxes\<close> followed by \<^verbatim>\<open>AxestoTranspose\<close>.
\<close>

theorem axes_transpose_roundtrip:
  assumes "1 \<le> n" and "1 \<le> b" and "b \<le> 32" and "int (length v) = n" and "fits (nat b) v"
  shows "axes_roundtrip v b n = Some v \<and> transpose_roundtrip v b n = Some v"
proof -
  obtain Y where "AxestoTranspose v b n = Some Y" "TransposetoAxes Y b n = Some v"
    using roundtrip [OF assms] by blast
  moreover obtain Z where "TransposetoAxes v b n = Some Z" "AxestoTranspose Z b n = Some v"
    using roundtrip_converse [OF assms] by blast
  ultimately show ?thesis
    by (simp add: axes_roundtrip_def transpose_roundtrip_def)
qed

theorem axes_transpose_roundtrip_witness:
  "(1::int) \<le> 3 \<and> (1::int) \<le> 5 \<and> (5::int) \<le> 32 \<and> int (length [5, 10, 20 :: coord_t]) = 3 \<and>
   fits (nat 5) [5, 10, 20] \<and>
   axes_roundtrip [5, 10, 20] 5 3 = Some [5, 10, 20] \<and>
   transpose_roundtrip [5, 10, 20] 5 3 = Some [5, 10, 20]"
  using axes_transpose_roundtrip [of 3 5 "[5, 10, 20]"]
  by (simp add: fits_def)

text \<open>
  C1, as the claim states it (every \<open>b \<ge> 1\<close>), fails at \<open>b = 33\<close>, \<open>n = 1\<close>, \<open>v = (2)\<close>:
  \<^verbatim>\<open>1 << 32\<close> has no defined value, and no vector is returned.
\<close>

theorem axes_transpose_roundtrip_counterexample:
  "(1::int) \<le> 1 \<and> (1::int) \<le> 33 \<and> int (length [2 :: coord_t]) = 1 \<and>
   unat (2 :: coord_t) < 2 ^ nat 33 \<and>
   axes_roundtrip [2] 33 1 \<noteq> Some [2]"
  by (simp add: axes_roundtrip_def AxestoTranspose_def)

text \<open>
  C6, as the code has it: for \<open>n = 1\<close> and \<open>1 \<le> b \<le> 32\<close>, each transform maps every
  one-element vector with its entry in \<open>[0, 2 ^ b - 1]\<close> to itself.
\<close>

theorem one_dimension_identity:
  assumes "1 \<le> b" and "b \<le> 32" and "fits (nat b) [x]"
  shows "AxestoTranspose [x] b 1 = Some [x] \<and> TransposetoAxes [x] b 1 = Some [x]"
  using assms by (simp add: AxestoTranspose_single TransposetoAxes_single)

theorem one_dimension_identity_witness:
  "(1::int) \<le> 3 \<and> (3::int) \<le> 32 \<and> fits (nat 3) [5] \<and>
   AxestoTranspose [5] 3 1 = Some [5] \<and> TransposetoAxes [5] 3 1 = Some [5]"
  using one_dimension_identity [of 3 5]
  by (simp add: fits_def)

text \<open>
  C6, as the claim states it (every \<open>b \<ge> 1\<close>), fails at \<open>b = 33\<close>, \<open>x = 2\<close>: the shifts
  \<^verbatim>\<open>1 << 32\<close> and \<^verbatim>\<open>2 << 32\<close> have no defined value, and neither transform returns
  the vector.
\<close>

theorem one_dimension_identity_counterexample:
  "(1::int) \<le> 33 \<and> unat (2 :: coord_t) < 2 ^ nat 33 \<and>
   AxestoTranspose [2] 33 1 \<noteq> Some [2] \<and> TransposetoAxes [2] 33 1 \<noteq> Some [2]"
  by (simp add: AxestoTranspose_def TransposetoAxes_def)

section \<open>The transforms keep the entries in range\<close>

text \<open>
  C8: for \<open>n \<ge> 1\<close>, \<open>b \<ge> 1\<close> and every vector of length \<open>n\<close> with all entries in
  \<open>[0, 2 ^ b - 1]\<close>, the vector either transform returns has all its entries in
  \<open>[0, 2 ^ b - 1]\<close>; and both transforms do return a vector for \<open>b \<le> 32\<close>, the width
  of \<^verbatim>\<open>coord_t\<close>.
\<close>

theorem transforms_keep_range:
  assumes "1 \<le> n" and "1 \<le> b" and "int (length X) = n" and "fits (nat b) X"
  shows "(\<forall>Y. AxestoTranspose X b n = Some Y \<longrightarrow> fits (nat b) Y) \<and>
         (\<forall>Y. TransposetoAxes X b n = Some Y \<longrightarrow> fits (nat b) Y) \<and>
         (b \<le> 32 \<longrightarrow> AxestoTranspose X b n \<noteq> None \<and> TransposetoAxes X b n \<noteq> None)"
proof (cases "b \<le> 32")
  case True
  obtain Y where "AxestoTranspose X b n = Some Y" "fits (nat b) Y"
    using roundtrip [OF assms(1,2) True assms(3,4)] by blast
  moreover obtain Z where "TransposetoAxes X b n = Some Z" "fits (nat b) Z"
    using TransposetoAxes_fits [OF assms(1,2) True assms(3,4)] by blast
  ultimately show ?thesis
    by simp
next
  case False
  then show ?thesis
    by (simp add: AxestoTranspose_def TransposetoAxes_def)
qed

theorem transforms_keep_range_witness:
  "(1::int) \<le> 3 \<and> (1::int) \<le> 5 \<and> int (length [5, 10, 20 :: coord_t]) = 3 \<and>
   fits (nat 5) [5, 10, 20] \<and>
   AxestoTranspose [5, 10, 20] 5 3 = Some [10, 14, 27] \<and> fits (nat 5) [10, 14, 27] \<and>
   TransposetoAxes [5, 10, 20] 5 3 \<noteq> None"
  using transforms_keep_range [of 3 5 "[5, 10, 20]"] example_transpose
  by (simp add: fits_def)

section \<open>Interleaving in three dimensions\<close>

text \<open>
  The strides of \<^verbatim>\<open>interleaveBits\<close> and \<^verbatim>\<open>uninterleaveBits\<close> are those of three
  dimensions. There the two routines do what C2 and C3 say, as far as the shifts of
  \<^verbatim>\<open>uninterleaveBits\<close>, which reads the planes \<open>0, \<dots>, b\<close>, stay below 32.
\<close>

lemma length_coden_spread_bit [simp]: "length (coden (spread_bit i a j m)) = length (coden m)"
  by (simp add: spread_bit_def)

lemma coden_fold_spread_bit:
  "n \<le> length (coden m) \<Longrightarrow>
     length (coden (fold (spread_bit i a) [0..<n] m)) = length (coden m) \<and>
     vec (fold (spread_bit i a) [0..<n] m) = vec m \<and>
     (\<forall>j < length (coden m).
        coden (fold (spread_bit i a) [0..<n] m) ! j =
          (if j < n then coden m ! j OR push_bit i (vec m ! j AND a) else coden m ! j))"
proof (induction n)
  case 0
  then show ?case by simp
next
  case (Suc n)
  then show ?case
    by (auto simp: spread_bit_def nth_list_update less_Suc_eq)
qed

lemma bit_plane_moved:
  "bit (push_bit (2 * k) (x AND 2 ^ k) :: 32 word) p \<longleftrightarrow> p < 32 \<and> p = 3 * k \<and> bit x k"
  by (auto simp: bit_simps)

lemma spread_loop_bits:
  assumes "n \<le> length (coden m)" and "k \<le> b"
  shows "length (coden (spread_loop (2 * int k) (2 ^ k) (2 * int b) n m)) = length (coden m) \<and>
         (\<forall>j<n. \<forall>p. bit (coden (spread_loop (2 * int k) (2 ^ k) (2 * int b) n m) ! j) p \<longleftrightarrow>
            bit (coden m ! j) p \<or>
            (p < 32 \<and> p mod 3 = 0 \<and> k \<le> p div 3 \<and> p div 3 < b \<and> bit (vec m ! j) (p div 3)))"
  using assms
proof (induction "b - k" arbitrary: k m)
  case 0
  then have "k = b" by simp
  then show ?case
    by (subst spread_loop.simps, subst spread_loop.simps) auto
next
  case (Suc d)
  then have kb: "k < b" "Suc k \<le> b" "d = b - Suc k"
    by simp_all
  define m' where "m' = fold (spread_bit (nat (2 * int k)) (2 ^ k)) [0..<n] m"
  have m': "length (coden m') = length (coden m)" "vec m' = vec m"
    "\<And>j. j < n \<Longrightarrow> coden m' ! j = coden m ! j OR push_bit (2 * k) (vec m ! j AND 2 ^ k)"
    using coden_fold_spread_bit [OF Suc.prems(1), of "nat (2 * int k)" "2 ^ k"] Suc.prems(1)
    by (auto simp: m'_def nat_mult_distrib)
  have step: "spread_loop (2 * int k) (2 ^ k) (2 * int b) n m =
              spread_loop (2 * int (Suc k)) (2 ^ Suc k) (2 * int b) n m'"
    using kb(1) by (subst spread_loop.simps) (simp add: m'_def push_bit_eq_mult ac_simps)
  have IH: "length (coden (spread_loop (2 * int (Suc k)) (2 ^ Suc k) (2 * int b) n m')) =
              length (coden m') \<and>
         (\<forall>j<n. \<forall>p. bit (coden (spread_loop (2 * int (Suc k)) (2 ^ Suc k) (2 * int b) n m') ! j) p \<longleftrightarrow>
            bit (coden m' ! j) p \<or>
            (p < 32 \<and> p mod 3 = 0 \<and> Suc k \<le> p div 3 \<and> p div 3 < b \<and> bit (vec m' ! j) (p div 3)))"
    using Suc.prems(1) m'(1) kb(2) by (intro Suc.hyps(1) [OF kb(3)]) simp_all
  show ?case
    unfolding step
  proof (intro conjI allI impI)
    show "length (coden (spread_loop (2 * int (Suc k)) (2 ^ Suc k) (2 * int b) n m')) =
            length (coden m)"
      using IH m'(1) by simp
  next
    fix j p
    assume j: "j < n"
    have bm': "bit (coden m' ! j) p \<longleftrightarrow>
                 bit (coden m ! j) p \<or> (p < 32 \<and> p = 3 * k \<and> bit (vec m ! j) k)"
      by (simp only: m'(3) [OF j] bit_or_iff bit_plane_moved)
    have late: "bit (coden (spread_loop (2 * int (Suc k)) (2 ^ Suc k) (2 * int b) n m') ! j) p \<longleftrightarrow>
            bit (coden m' ! j) p \<or>
            (p < 32 \<and> p mod 3 = 0 \<and> Suc k \<le> p div 3 \<and> p div 3 < b \<and> bit (vec m ! j) (p div 3))"
      using IH j by (simp only: m'(2))
    have "p = 3 * k \<longleftrightarrow> p mod 3 = 0 \<and> p div 3 = k"
      by presburger
    then have "(p < 32 \<and> p = 3 * k \<and> bit (vec m ! j) k) \<or>
          (p < 32 \<and> p mod 3 = 0 \<and> Suc k \<le> p div 3 \<and> p div 3 < b \<and> bit (vec m ! j) (p div 3)) \<longleftrightarrow>
          (p < 32 \<and> p mod 3 = 0 \<and> k \<le> p div 3 \<and> p div 3 < b \<and> bit (vec m ! j) (p div 3))"
      using kb(1) by (auto simp: Suc_le_eq le_less)
    then show "bit (coden (spread_loop (2 * int (Suc k)) (2 ^ Suc k) (2 * int b) n m') ! j) p \<longleftrightarrow>
            bit (coden m ! j) p \<or>
            (p < 32 \<and> p mod 3 = 0 \<and> k \<le> p div 3 \<and> p div 3 < b \<and> bit (vec m ! j) (p div 3))"
      unfolding late bm' by argo
  qed
qed


lemma replicate_update_same: "(replicate n x)[i := x] = replicate n x"
  by (cases "i < n") (simp_all add: list_eq_iff_nth_eq nth_list_update)

lemma clear_loop_cleared:
  "fold (\<lambda>i m. m\<lparr>coden := (coden m)[i := 0]\<rparr>) is \<lparr>vec = X, coden = replicate n 0\<rparr> =
     \<lparr>vec = X, coden = replicate n 0\<rparr>"
  by (induction "is") (simp_all add: replicate_update_same)

lemma combine_three: "combine 3 c = push_bit 2 (c ! 0) OR push_bit 1 (c ! 1) OR c ! 2"
proof -
  have "[1..<3] = [1, 2]"
    by (simp add: upt_rec)
  then show ?thesis
    by (simp add: combine_def ac_simps)
qed

lemma bit_combine_three:
  "bit (combine 3 c) p \<longleftrightarrow>
     (2 \<le> p \<and> p < 32 \<and> bit (c ! 0) (p - 2)) \<or> (1 \<le> p \<and> p < 32 \<and> bit (c ! 1) (p - 1)) \<or> bit (c ! 2) p"
  unfolding combine_three bit_or_iff bit_push_bit_iff by simp

lemma interleaveBits_three:
  assumes "0 \<le> b" and "b \<le> 16" and "length X = 3"
  shows "\<exists>code. interleaveBits X b 3 = Some code \<and>
           (\<forall>p. bit code p \<longleftrightarrow> p < 32 \<and> p div 3 < nat b \<and> bit (X ! (2 - p mod 3)) (p div 3))"
proof -
  define m1 where "m1 = \<lparr>vec = X, coden = replicate 3 (0 :: 32 word)\<rparr>"
  define c where "c = coden (spread_loop 0 1 (2 * b) 3 m1)"
  have "spread_loop 0 1 (2 * b) 3 m1 = spread_loop (2 * int 0) (2 ^ 0) (2 * int (nat b)) 3 m1"
    using assms(1) by simp
  then have c: "bit (c ! j) p \<longleftrightarrow> p < 32 \<and> p mod 3 = 0 \<and> p div 3 < nat b \<and> bit (X ! j) (p div 3)"
    if "j < 3" for j p
    using spread_loop_bits [of 3 m1 0 "nat b"] that by (simp add: c_def m1_def)
  have c0: "bit (c ! 0) q \<longleftrightarrow> q < 32 \<and> q mod 3 = 0 \<and> q div 3 < nat b \<and> bit (X ! 0) (q div 3)" for q
    by (rule c) simp
  have c1: "bit (c ! 1) q \<longleftrightarrow> q < 32 \<and> q mod 3 = 0 \<and> q div 3 < nat b \<and> bit (X ! 1) (q div 3)" for q
    by (rule c) simp
  have c2: "bit (c ! 2) q \<longleftrightarrow> q < 32 \<and> q mod 3 = 0 \<and> q div 3 < nat b \<and> bit (X ! 2) (q div 3)" for q
    by (rule c) simp
  have code: "interleaveBits X b 3 = Some (combine 3 c)"
    using assms by (simp add: interleaveBits_def interleaveBits_mem_def Let_def
        clear_loop_cleared c_def m1_def)
  have "bit (combine 3 c) p \<longleftrightarrow> p < 32 \<and> p div 3 < nat b \<and> bit (X ! (2 - p mod 3)) (p div 3)" for p
  proof -
    consider "p mod 3 = 0" | "p mod 3 = 1" | "p mod 3 = 2"
      by linarith
    then show ?thesis
    proof cases
      case 1
      then have "2 \<le> p \<Longrightarrow> (p - 2) mod 3 \<noteq> 0" "1 \<le> p \<Longrightarrow> (p - 1) mod 3 \<noteq> 0"
        by presburger+
      with 1 show ?thesis
        unfolding bit_combine_three c0 c1 c2 by auto
    next
      case 2
      then have "2 \<le> p \<Longrightarrow> (p - 2) mod 3 \<noteq> 0" "1 \<le> p" "(p - 1) mod 3 = 0"
        "(p - 1) div 3 = p div 3"
        by presburger+
      with 2 show ?thesis
        unfolding bit_combine_three c0 c1 c2 by auto
    next
      case 3
      then have "2 \<le> p" "(p - 2) mod 3 = 0" "(p - 1) mod 3 \<noteq> 0"
        "(p - 2) div 3 = p div 3"
        by presburger+
      with 3 show ?thesis
        unfolding bit_combine_three c0 c1 c2 by auto
    qed
  qed
  with code show ?thesis
    by blast
qed


lemma bit_selected:
  "bit (drop_bit (2 * i + j) (code AND push_bit (3 * i + j) 1) :: 32 word) q \<longleftrightarrow>
     q = i \<and> bit code (3 * i + j)"
  by (auto simp: bit_simps dest: bit_imp_le_length)

lemma select_plane_three:
  "fold (select_bit code 3 i) [0..<3] [x0, x1, x2] =
     [x0 OR drop_bit (2 * i + 2) (code AND push_bit (3 * i + 2) 1),
      x1 OR drop_bit (2 * i + 1) (code AND push_bit (3 * i + 1) 1),
      x2 OR drop_bit (2 * i + 0) (code AND push_bit (3 * i + 0) 1)]"
proof -
  have "[0..<3] = [0, 1, 2]"
    by (simp add: upt_rec)
  then show ?thesis
    by (simp add: select_bit_def Let_def push_bit_eq_mult)
qed

lemma select_planes_three:
  "\<exists>y0 y1 y2.
     fold (\<lambda>i X. fold (select_bit code 3 i) [0..<3] X) [0..<m] [x0, x1, x2] = [y0, y1, y2] \<and>
     (\<forall>q. bit y0 q \<longleftrightarrow> bit x0 q \<or> (q < m \<and> bit code (3 * q + 2))) \<and>
     (\<forall>q. bit y1 q \<longleftrightarrow> bit x1 q \<or> (q < m \<and> bit code (3 * q + 1))) \<and>
     (\<forall>q. bit y2 q \<longleftrightarrow> bit x2 q \<or> (q < m \<and> bit code (3 * q + 0)))"
proof (induction m)
  case 0
  show ?case by simp
next
  case (Suc m)
  then obtain y0 y1 y2 where
    y: "fold (\<lambda>i X. fold (select_bit code 3 i) [0..<3] X) [0..<m] [x0, x1, x2] = [y0, y1, y2]"
    and b0: "\<And>q. bit y0 q \<longleftrightarrow> bit x0 q \<or> (q < m \<and> bit code (3 * q + 2))"
    and b1: "\<And>q. bit y1 q \<longleftrightarrow> bit x1 q \<or> (q < m \<and> bit code (3 * q + 1))"
    and b2: "\<And>q. bit y2 q \<longleftrightarrow> bit x2 q \<or> (q < m \<and> bit code (3 * q + 0))"
    by blast
  define z0 where "z0 = y0 OR drop_bit (2 * m + 2) (code AND push_bit (3 * m + 2) 1)"
  define z1 where "z1 = y1 OR drop_bit (2 * m + 1) (code AND push_bit (3 * m + 1) 1)"
  define z2 where "z2 = y2 OR drop_bit (2 * m + 0) (code AND push_bit (3 * m + 0) 1)"
  have "fold (\<lambda>i X. fold (select_bit code 3 i) [0..<3] X) [0..<Suc m] [x0, x1, x2] =
          fold (select_bit code 3 m) [0..<3] [y0, y1, y2]"
    by (simp add: y)
  also have "\<dots> = [z0, z1, z2]"
    unfolding z0_def z1_def z2_def by (rule select_plane_three)
  finally have eq: "fold (\<lambda>i X. fold (select_bit code 3 i) [0..<3] X) [0..<Suc m] [x0, x1, x2] =
          [z0, z1, z2]" .
  have "bit z0 q \<longleftrightarrow> bit x0 q \<or> (q < Suc m \<and> bit code (3 * q + 2))" for q
    unfolding z0_def bit_or_iff bit_selected b0 by (auto simp: less_Suc_eq)
  moreover have "bit z1 q \<longleftrightarrow> bit x1 q \<or> (q < Suc m \<and> bit code (3 * q + 1))" for q
    unfolding z1_def bit_or_iff bit_selected b1 by (auto simp: less_Suc_eq)
  moreover have "bit z2 q \<longleftrightarrow> bit x2 q \<or> (q < Suc m \<and> bit code (3 * q + 0))" for q
    unfolding z2_def bit_or_iff bit_selected b2 by (auto simp: less_Suc_eq)
  ultimately show ?case
    using eq by blast
qed


lemma fits_bit: "fits b X \<Longrightarrow> j < length X \<Longrightarrow> bit (X ! j) q \<Longrightarrow> q < b"
  by (metis fits_nth bit_take_bit_iff)

lemma interleave_roundtrip_three:
  assumes "1 \<le> b" and "b \<le> 9" and "length v = 3" and "fits (nat b) v" and "length X = 3"
  shows "\<exists>code. interleaveBits v b 3 = Some code \<and> uninterleaveBits X b 3 code = Some v"
proof -
  obtain code where code: "interleaveBits v b 3 = Some code"
    and bits: "\<And>p. bit code p \<longleftrightarrow> p < 32 \<and> p div 3 < nat b \<and> bit (v ! (2 - p mod 3)) (p div 3)"
    using interleaveBits_three [of b v] assms(1-3) by auto
  obtain v0 v1 v2 where v: "v = [v0, v1, v2]"
    using assms(3) by (auto simp: length_Suc_conv numeral_3_eq_3)
  have small: "bit v0 q \<Longrightarrow> q < nat b" "bit v1 q \<Longrightarrow> q < nat b" "bit v2 q \<Longrightarrow> q < nat b" for q
    using fits_bit [OF assms(4), of 0 q] fits_bit [OF assms(4), of 1 q]
      fits_bit [OF assms(4), of 2 q] by (simp_all add: v)
  obtain y0 y1 y2 where
    y: "fold (\<lambda>i X. fold (select_bit code 3 i) [0..<3] X) [0..<nat (b + 1)] [0, 0, 0] = [y0, y1, y2]"
    and b0: "\<And>q. bit y0 q \<longleftrightarrow> q < nat (b + 1) \<and> bit code (3 * q + 2)"
    and b1: "\<And>q. bit y1 q \<longleftrightarrow> q < nat (b + 1) \<and> bit code (3 * q + 1)"
    and b2: "\<And>q. bit y2 q \<longleftrightarrow> q < nat (b + 1) \<and> bit code (3 * q + 0)"
    using select_planes_three [of code "nat (b + 1)" 0 0 0] by auto
  have d: "(3 * q + 2) div 3 = q" "(3 * q + 1) div 3 = q" "(3 * q + 0) div 3 = q"
    "(3 * q + 2) mod 3 = 2" "(3 * q + 1) mod 3 = 1" "(3 * q + 0) mod 3 = 0" for q :: nat
    by presburger+
  have r: "q < nat b \<Longrightarrow> 3 * q + 2 < 32 \<and> 3 * q + 1 < 32 \<and> 3 * q + 0 < 32 \<and> q < nat (b + 1)" for q
    using assms(2) by linarith
  have c0: "bit code (3 * q + 2) \<longleftrightarrow> 3 * q + 2 < 32 \<and> q < nat b \<and> bit v0 q" for q
    unfolding bits d v by simp
  have c1: "bit code (3 * q + 1) \<longleftrightarrow> 3 * q + 1 < 32 \<and> q < nat b \<and> bit v1 q" for q
    unfolding bits d v by simp
  have c2: "bit code (3 * q + 0) \<longleftrightarrow> 3 * q + 0 < 32 \<and> q < nat b \<and> bit v2 q" for q
    unfolding bits d v by simp
  have "bit y0 q \<longleftrightarrow> bit v0 q" for q
    unfolding b0 c0 using small(1) [of q] r [of q] by blast
  then have "y0 = v0"
    by (simp add: bit_eq_iff)
  moreover have "bit y1 q \<longleftrightarrow> bit v1 q" for q
    unfolding b1 c1 using small(2) [of q] r [of q] by blast
  then have "y1 = v1"
    by (simp add: bit_eq_iff)
  moreover have "bit y2 q \<longleftrightarrow> bit v2 q" for q
    unfolding b2 c2 using small(3) [of q] r [of q] by blast
  then have "y2 = v2"
    by (simp add: bit_eq_iff)
  moreover have "fold (\<lambda>i X. X[i := 0]) [0..<3] X = [0, 0, 0]"
    using zero_loop [OF assms(5)] by (simp add: numeral_3_eq_3)
  ultimately have "uninterleaveBits X b 3 code = Some v"
    using assms(1,2,5) y by (simp add: uninterleaveBits_def v)
  with code show ?thesis
    by blast
qed

text \<open>
  For \<open>n = 3\<close> and \<open>1 \<le> b \<le> 10\<close> the code is laid out as C3 says: bit \<open>k\<close> of the
  code, \<open>k < 3 * b\<close>, is bit \<open>k div 3\<close> of coordinate \<open>(3 - 1) - k mod 3\<close>.
\<close>

lemma interleaveBits_three_layout:
  assumes "1 \<le> b" and "b \<le> 10" and "length X = 3"
  shows "\<exists>code. interleaveBits X b 3 = Some code \<and>
           (\<forall>k < 3 * nat b. bit code k \<longleftrightarrow> bit (X ! ((3 - 1) - k mod 3)) (k div 3))"
proof -
  obtain code where code: "interleaveBits X b 3 = Some code"
    and bits: "\<And>p. bit code p \<longleftrightarrow> p < 32 \<and> p div 3 < nat b \<and> bit (X ! (2 - p mod 3)) (p div 3)"
    using interleaveBits_three [of b X] assms by auto
  have "bit code k \<longleftrightarrow> bit (X ! ((3 - 1) - k mod 3)) (k div 3)" if "k < 3 * nat b" for k
  proof -
    have "k < 32" "k div 3 < nat b"
      using that assms(2) by linarith+
    then show ?thesis
      by (simp add: bits)
  qed
  with code show ?thesis
    by blast
qed

end
